theory Spec2Isabelle
  imports Complex_Main
begin

section \<open>Review harvesting: the page, the paginator, the harvester, the delivery loop\<close>

text \<open>
  The program is one Python module, \<^verbatim>\<open>main.py\<close>. It drives a browser over product
  pages, collects the review elements that are recent enough
  (\<^verbatim>\<open>collect_all_feedbacks\<close>), turns them into message lines
  (\<^verbatim>\<open>handle_page\<close>) and sends the lines to a Telegram channel (\<^verbatim>\<open>sent_data\<close>).

  The browser, the clock and the Telegram client are outside the program. They are
  modelled as data the functions read: what the page shows, what each click on the page
  leads to, what each call of \<^verbatim>\<open>datetime.now()\<close> returns, what each call of
  \<^verbatim>\<open>bot.send_message\<close> returns. Exceptions are values of type \<open>exn\<close>.
\<close>

subsection \<open>Exceptions\<close>

datatype exn =
    TimeoutException
  | NoSuchElementException
  | ElementNotInteractableException
  | WebDriverException
  | ValueError
  | TypeError
  | IndexError

subsection \<open>Review elements\<close>

text \<open>
  A \<^verbatim>\<open>WebElement\<close> of class \<^verbatim>\<open>comments__item\<close>, with what the program reads from it.
  \<^item> \<open>element_id\<close>: the identity of the element in the document;
  \<^item> \<open>fb_date\<close>: the outcome of lines 62 and 63, that is of finding the
    \<^verbatim>\<open>feedback__date\<close> child, reading its \<^verbatim>\<open>content\<close> attribute and parsing it with
    \<^verbatim>\<open>strptime\<close>: the exception raised, or the parsed date and time. Dates and times are
    integers, a number of microseconds; Python's bounds on dates are not modelled;
  \<^item> \<open>fb_rating_class\<close>: the \<^verbatim>\<open>class\<close> attribute of the \<^verbatim>\<open>feedback__rating\<close> child,
    \<open>None\<close> when \<^verbatim>\<open>find_element\<close> raises \<^verbatim>\<open>NoSuchElementException\<close>;
  \<^item> \<open>fb_header\<close>, \<open>fb_text\<close>: the text of the \<^verbatim>\<open>feedback__header\<close> and
    \<^verbatim>\<open>feedback__text\<close> children, \<open>None\<close> likewise.
\<close>

type_synonym datetime = int

record feedback =
  element_id :: nat
  fb_date :: "exn + datetime"
  fb_rating_class :: "string option"
  fb_header :: "string option"
  fb_text :: "string option"

subsection \<open>The browser session and the clock\<close>

text \<open>
  What \<^verbatim>\<open>driver_var\<close> and the clock answer during the handling of one page.
  \<^item> \<open>page_rating\<close>: the outcome of lines 102 to 107 (waiting for the rating element,
    reading its text, \<^verbatim>\<open>float\<close>): the exception raised, \<^verbatim>\<open>TimeoutException\<close> when the
    element does not appear in time, or the number;
  \<^item> \<open>page_product_name\<close>: the outcome of lines 110 and 111;
  \<^item> \<open>comments\<close>: what the first \<^verbatim>\<open>find_elements\<close> (line 57) returns;
  \<^item> \<open>click k e\<close>: the outcome of the \<open>k\<close>-th click of the run when it is made on
    element \<open>e\<close> (lines 77, 78 and the \<^verbatim>\<open>find_elements\<close> of line 82): the exception
    the click raises, or the list of \<^verbatim>\<open>comments__item\<close> elements the document holds
    one second later;
  \<^item> \<open>now k\<close>: what the \<open>k\<close>-th call of \<^verbatim>\<open>datetime.now()\<close> returns.
\<close>

record webdriver =
  page_rating :: "exn + real"
  page_product_name :: "exn + string"
  comments :: "feedback list"
  click :: "nat \<Rightarrow> feedback \<Rightarrow> exn + feedback list"
  now :: "nat \<Rightarrow> datetime"

definition timedelta_days :: "int \<Rightarrow> int" where
  "timedelta_days d = d * 86400000000"

subsection \<open>\<^verbatim>\<open>collect_all_feedbacks\<close>\<close>

text \<open>
  The \<^verbatim>\<open>for\<close> loop of lines 61 to 67 over \<^verbatim>\<open>enumerate(new_feedbacks_list)\<close>.
  \<open>reads\<close> counts the calls of \<^verbatim>\<open>datetime.now()\<close> made so far, \<open>index\<close> is the
  position of the head of the list in the batch. The result is the exception raised, or
  \<^verbatim>\<open>feedback_border\<close> (\<open>None\<close> as in Python) with the new count of clock reads.
\<close>

fun find_border ::
  "(nat \<Rightarrow> datetime) \<Rightarrow> int \<Rightarrow> nat \<Rightarrow> nat \<Rightarrow> feedback list \<Rightarrow> exn + (nat option \<times> nat)"
where
  "find_border clock time reads index [] = Inr (None, reads)"
| "find_border clock time reads index (feedback # rest) =
     (case fb_date feedback of
        Inl e \<Rightarrow> Inl e
      | Inr feedback_date \<Rightarrow>
          if feedback_date < clock reads - timedelta_days time
          then Inr (Some index, Suc reads)
          else find_border clock time (Suc reads) (Suc index) rest)"

text \<open>
  One pass through the body of the \<^verbatim>\<open>while\<close> loop (lines 60 to 82), entered with a
  batch that is not empty: an exception leaves the function, \<^verbatim>\<open>break\<close> leaves the loop
  with the list to return, and otherwise the loop goes on with a new
  \<^verbatim>\<open>feedbacks_list\<close>, a new batch and the counts of clicks and clock reads.
  Python's \<^verbatim>\<open>if feedback_border:\<close> is false for \<^verbatim>\<open>None\<close> and for \<^verbatim>\<open>0\<close>;
  \<^verbatim>\<open>xs[:n]\<close> is \<open>take n xs\<close>, \<^verbatim>\<open>xs[n:]\<close> is \<open>drop n xs\<close>, and \<^verbatim>\<open>xs[-1]\<close> on a list
  that is not empty is \<open>last xs\<close>.
\<close>

datatype step =
    Raise exn
  | Break "feedback list"
  | Continue "feedback list" "feedback list" nat nat

definition iteration ::
  "webdriver \<Rightarrow> int \<Rightarrow> feedback list \<Rightarrow> feedback list \<Rightarrow> nat \<Rightarrow> nat \<Rightarrow> step"
where
  "iteration w time feedbacks_list new_feedbacks_list clicks reads =
     (case find_border (now w) time reads 0 new_feedbacks_list of
        Inl e \<Rightarrow> Raise e
      | Inr (feedback_border, reads') \<Rightarrow>
          (case feedback_border of
             Some b \<Rightarrow>
               if b \<noteq> 0 then Break (feedbacks_list @ take b new_feedbacks_list)
               else Break feedbacks_list
           | None \<Rightarrow>
               (case click w clicks (last new_feedbacks_list) of
                  Inl e \<Rightarrow>
                    if e = ElementNotInteractableException
                    then Break ((feedbacks_list @ new_feedbacks_list) @ new_feedbacks_list)
                    else Raise e
                | Inr found \<Rightarrow>
                    Continue (feedbacks_list @ new_feedbacks_list)
                      (drop (length (feedbacks_list @ new_feedbacks_list)) found)
                      (Suc clicks) reads')))"

text \<open>
  The \<^verbatim>\<open>while\<close> loop. The page may reveal new elements for ever, so the loop is a partial
  function: \<open>None\<close> is a run that never returns.
\<close>

partial_function (option) collect_loop ::
  "webdriver \<Rightarrow> int \<Rightarrow> feedback list \<Rightarrow> feedback list \<Rightarrow> nat \<Rightarrow> nat \<Rightarrow> (exn + feedback list) option"
where
  "collect_loop w time feedbacks_list new_feedbacks_list clicks reads =
     (if new_feedbacks_list = [] then Some (Inr feedbacks_list)
      else
        case iteration w time feedbacks_list new_feedbacks_list clicks reads of
          Raise e \<Rightarrow> Some (Inl e)
        | Break result \<Rightarrow> Some (Inr result)
        | Continue feedbacks_list' new_feedbacks_list' clicks' reads' \<Rightarrow>
            collect_loop w time feedbacks_list' new_feedbacks_list' clicks' reads')"

definition collect_all_feedbacks :: "webdriver \<Rightarrow> int \<Rightarrow> (exn + feedback list) option" where
  "collect_all_feedbacks driver_var time = collect_loop driver_var time [] (comments driver_var) 0 0"

subsection \<open>\<^verbatim>\<open>handle_page\<close>\<close>

text \<open>
  One element of \<^verbatim>\<open>DATA\<close>: the six values that line 134 joins with \<^verbatim>\<open>/\<close> into the
  message line. A value that is \<^verbatim>\<open>None\<close> in Python is \<open>None\<close> here.
  \<^verbatim>\<open>feedback_stars\<close> is one character, the last one of the class attribute.
\<close>

record review =
  feedback_name :: "string option"
  product_name :: string
  sku :: string
  feedback_stars :: "char option"
  feedback_text :: "string option"
  rating :: real

definition TIME_DELTA :: int where
  "TIME_DELTA = 10"

text \<open>
  Lines 119 to 124: the star character of one review. \<open>Inr None\<close> is the
  \<^verbatim>\<open>NoSuchElementException\<close> that line 123 catches; \<^verbatim>\<open>s[-1]\<close> on the empty string raises
  \<^verbatim>\<open>IndexError\<close>, which nothing catches.
\<close>

definition read_stars :: "feedback \<Rightarrow> exn + char option" where
  "read_stars feedback =
     (case fb_rating_class feedback of
        None \<Rightarrow> Inr None
      | Some cls \<Rightarrow> if cls = [] then Inl IndexError else Inr (Some (last cls)))"

text \<open>
  The \<^verbatim>\<open>for\<close> loop of lines 115 to 136. The result is what the loop appends to
  \<^verbatim>\<open>DATA\<close>, and the exception that ended it, if any: what was appended before the
  exception stays in \<^verbatim>\<open>DATA\<close>.
\<close>

fun harvest :: "string \<Rightarrow> string \<Rightarrow> real \<Rightarrow> feedback list \<Rightarrow> review list \<times> exn option" where
  "harvest pname s r [] = ([], None)"
| "harvest pname s r (feedback # rest) =
     (case read_stars feedback of
        Inl e \<Rightarrow> ([], Some e)
      | Inr stars \<Rightarrow>
          if stars = Some CHR ''5'' then harvest pname s r rest
          else
            let feedback_data_item =
                  \<lparr>feedback_name = fb_header feedback, product_name = pname, sku = s,
                   feedback_stars = stars, feedback_text = fb_text feedback, rating = r\<rparr>;
                (appended, raised) = harvest pname s r rest
            in (feedback_data_item # appended, raised))"

text \<open>The body of the \<^verbatim>\<open>try\<close> of lines 100 to 136.\<close>

definition handle_page_body :: "webdriver \<Rightarrow> string \<Rightarrow> (review list \<times> exn option) option" where
  "handle_page_body driver_var s =
     (case page_rating driver_var of
        Inl e \<Rightarrow> Some ([], Some e)
      | Inr r \<Rightarrow>
          if r < 5 then
            (case page_product_name driver_var of
               Inl e \<Rightarrow> Some ([], Some e)
             | Inr pname \<Rightarrow>
                 (case collect_all_feedbacks driver_var TIME_DELTA of
                    None \<Rightarrow> None
                  | Some (Inl e) \<Rightarrow> Some ([], Some e)
                  | Some (Inr all_feedbacks) \<Rightarrow> Some (harvest pname s r all_feedbacks)))
          else Some ([], None))"

text \<open>
  \<^verbatim>\<open>handle_page(driver_var, url, sku)\<close>: the \<^verbatim>\<open>try\<close> with its handler, which swallows
  \<^verbatim>\<open>TimeoutException\<close> and nothing else. The result is what the call appends to
  \<^verbatim>\<open>DATA\<close> and the exception that leaves the call, if any.
\<close>

definition handle_page :: "webdriver \<Rightarrow> string \<Rightarrow> (review list \<times> exn option) option" where
  "handle_page driver_var s =
     (case handle_page_body driver_var s of
        None \<Rightarrow> None
      | Some (appended, raised) \<Rightarrow>
          Some (appended, if raised = Some TimeoutException then None else raised))"

subsection \<open>\<^verbatim>\<open>sent_data\<close>\<close>

text \<open>
  What one call of \<^verbatim>\<open>bot.send_message\<close> does: it returns, it raises
  \<^verbatim>\<open>ApiTelegramException\<close> with an \<^verbatim>\<open>error_code\<close>, or it raises something else.
  \<open>send_message k m\<close> is the outcome of the \<open>k\<close>-th call of the run, made with message \<open>m\<close>.
\<close>

datatype send_result = Delivered | ApiTelegramException int | OtherException

text \<open>What \<^verbatim>\<open>sent_data\<close> does, in order: the calls of the client, the lines printed, the final \<^verbatim>\<open>stop_bot()\<close>.\<close>

datatype 'm action =
    SendMessage 'm
  | PrintRetryAfter int
  | PrintError int
  | StopBot

text \<open>
  The loop of lines 205 to 213 followed by line 214. An exception other than
  \<^verbatim>\<open>ApiTelegramException\<close> leaves the function, so nothing follows it.
\<close>

fun sent_loop :: "(nat \<Rightarrow> 'm \<Rightarrow> send_result) \<Rightarrow> nat \<Rightarrow> 'm list \<Rightarrow> 'm action list" where
  "sent_loop send_message k [] = [StopBot]"
| "sent_loop send_message k (message # rest) =
     SendMessage message #
     (case send_message k message of
        Delivered \<Rightarrow> sent_loop send_message (Suc k) rest
      | ApiTelegramException error_code \<Rightarrow>
          (if error_code = 429
           then (let retry_after = error_code in PrintRetryAfter retry_after # sent_loop send_message (Suc k) rest)
           else PrintError error_code # sent_loop send_message (Suc k) rest)
      | OtherException \<Rightarrow> [])"

definition sent_data :: "(nat \<Rightarrow> 'm \<Rightarrow> send_result) \<Rightarrow> 'm list \<Rightarrow> 'm action list" where
  "sent_data send_message DATA = sent_loop send_message 0 DATA"

subsection \<open>A review that was compared with the clock\<close>

text \<open>
  \<open>examined w time f\<close>: the date of \<open>f\<close> can be read, and at one of the clock reads of
  the run it was not older than \<^verbatim>\<open>datetime.now() - timedelta(days=time)\<close>.
\<close>

definition examined :: "webdriver \<Rightarrow> int \<Rightarrow> feedback \<Rightarrow> bool" where
  "examined w time f \<longleftrightarrow> (\<exists>k t. fb_date f = Inr t \<and> \<not> t < now w k - timedelta_days time)"

subsection \<open>Example reviews and pages\<close>

text \<open>
  The clock of the examples starts at 1700000000000000 microseconds and advances by one
  microsecond at each read; ten days are 864000000000 microseconds. \<open>fb_new\<close>, \<open>fb_plain\<close>
  and \<open>fb_bare\<close> are one day old, \<open>fb_five\<close> two days, \<open>fb_old\<close> ten days and a bit.
  The class attribute of \<open>fb_plain\<close> is the bare class name; \<open>fb_bare\<close> has none of the
  three children; the class attribute of \<open>fb_nine\<close>, one day old too, ends with the
  digit 9. On \<open>shop_page\<close>, \<open>last_page\<close>, \<open>plain_page\<close> and \<open>nine_page\<close> every
  click raises \<^verbatim>\<open>ElementNotInteractableException\<close>; on \<open>growing_page\<close> the first click
  reveals one more review and the second raises.
\<close>

definition fb_new :: feedback where
  "fb_new = \<lparr>element_id = 1, fb_date = Inr 1699913600000000,
     fb_rating_class = Some ''feedback__rating stars-4'', fb_header = Some ''Anna'',
     fb_text = Some ''arrived late''\<rparr>"

definition fb_five :: feedback where
  "fb_five = \<lparr>element_id = 2, fb_date = Inr 1699827200000000,
     fb_rating_class = Some ''feedback__rating stars-5'', fb_header = Some ''Boris'',
     fb_text = Some ''fine''\<rparr>"

definition fb_old :: feedback where
  "fb_old = \<lparr>element_id = 3, fb_date = Inr 1699049600000000,
     fb_rating_class = Some ''feedback__rating stars-2'', fb_header = Some ''Clara'',
     fb_text = Some ''broke in a week''\<rparr>"

definition fb_plain :: feedback where
  "fb_plain = \<lparr>element_id = 4, fb_date = Inr 1699913600000000,
     fb_rating_class = Some ''feedback__rating'', fb_header = None,
     fb_text = Some ''no stars shown''\<rparr>"

definition fb_bare :: feedback where
  "fb_bare = \<lparr>element_id = 5, fb_date = Inr 1699913600000000,
     fb_rating_class = None, fb_header = None, fb_text = None\<rparr>"

definition shop_page :: webdriver where
  "shop_page = \<lparr>page_rating = Inr 4.8, page_product_name = Inr ''Kettle'',
     comments = [fb_new, fb_five, fb_old],
     click = (\<lambda>k e. Inl ElementNotInteractableException),
     now = (\<lambda>k. 1700000000000000 + int k)\<rparr>"

definition last_page :: webdriver where
  "last_page = \<lparr>page_rating = Inr 4.8, page_product_name = Inr ''Kettle'',
     comments = [fb_new],
     click = (\<lambda>k e. Inl ElementNotInteractableException),
     now = (\<lambda>k. 1700000000000000 + int k)\<rparr>"

definition plain_page :: webdriver where
  "plain_page = \<lparr>page_rating = Inr 4.8, page_product_name = Inr ''Kettle'',
     comments = [fb_plain, fb_old],
     click = (\<lambda>k e. Inl ElementNotInteractableException),
     now = (\<lambda>k. 1700000000000000 + int k)\<rparr>"

definition growing_page :: webdriver where
  "growing_page = \<lparr>page_rating = Inr 4.8, page_product_name = Inr ''Kettle'',
     comments = [fb_new],
     click = (\<lambda>k e. if k = 0 then Inr [fb_new, fb_bare] else Inl ElementNotInteractableException),
     now = (\<lambda>k. 1700000000000000 + int k)\<rparr>"

definition fb_nine :: feedback where
  "fb_nine = \<lparr>element_id = 6, fb_date = Inr 1699913600000000,
     fb_rating_class = Some ''feedback__rating stars-9'', fb_header = Some ''Dana'',
     fb_text = Some ''scale of ten''\<rparr>"

definition nine_page :: webdriver where
  "nine_page = \<lparr>page_rating = Inr 4.8, page_product_name = Inr ''Kettle'',
     comments = [fb_nine, fb_old],
     click = (\<lambda>k e. Inl ElementNotInteractableException),
     now = (\<lambda>k. 1700000000000000 + int k)\<rparr>"

section \<open>Auxiliary facts\<close>

lemmas examples = fb_new_def fb_five_def fb_old_def fb_plain_def fb_bare_def fb_nine_def
  shop_page_def last_page_def plain_page_def growing_page_def nine_page_def

lemmas run_defs = collect_all_feedbacks_def iteration_def timedelta_days_def
  collect_loop.simps handle_page_def handle_page_body_def read_stars_def TIME_DELTA_def

subsection \<open>The scan of one batch\<close>

lemma find_border_None:
  "find_border clock time r i xs = Inr (None, r') \<Longrightarrow>
     r' = r + length xs \<and>
     (\<forall>j<length xs. \<exists>t. fb_date (xs ! j) = Inr t \<and> \<not> t < clock (r + j) - timedelta_days time)"
proof (induction xs arbitrary: r i)
  case Nil
  then show ?case by simp
next
  case (Cons x xs)
  from Cons.prems obtain t where t: "fb_date x = Inr t"
    and fresh: "\<not> t < clock r - timedelta_days time"
    and rest: "find_border clock time (Suc r) (Suc i) xs = Inr (None, r')"
    by (auto split: sum.splits if_splits)
  from Cons.IH [OF rest] have r': "r' = Suc r + length xs"
    and all: "\<forall>j<length xs. \<exists>t. fb_date (xs ! j) = Inr t \<and> \<not> t < clock (Suc r + j) - timedelta_days time"
    by simp_all
  show ?case
  proof (intro conjI allI impI)
    show "r' = r + length (x # xs)" using r' by simp
  next
    fix j assume j: "j < length (x # xs)"
    show "\<exists>t. fb_date ((x # xs) ! j) = Inr t \<and> \<not> t < clock (r + j) - timedelta_days time"
    proof (cases j)
      case 0
      then show ?thesis using t fresh by simp
    next
      case (Suc j')
      then show ?thesis using all j by simp
    qed
  qed
qed

lemma find_border_Some:
  "find_border clock time r i xs = Inr (Some b, r') \<Longrightarrow>
     i \<le> b \<and> b - i < length xs \<and>
     (\<forall>j<b - i. \<exists>t. fb_date (xs ! j) = Inr t \<and> \<not> t < clock (r + j) - timedelta_days time)"
proof (induction xs arbitrary: r i)
  case Nil
  then show ?case by simp
next
  case (Cons x xs)
  from Cons.prems obtain t where t: "fb_date x = Inr t"
    by (auto split: sum.splits)
  show ?case
  proof (cases "t < clock r - timedelta_days time")
    case True
    with Cons.prems t show ?thesis by simp
  next
    case False
    with Cons.prems t have rest: "find_border clock time (Suc r) (Suc i) xs = Inr (Some b, r')"
      by simp
    from Cons.IH [OF rest] have le: "Suc i \<le> b" and lt: "b - Suc i < length xs"
      and all: "\<forall>j<b - Suc i. \<exists>t. fb_date (xs ! j) = Inr t \<and> \<not> t < clock (Suc r + j) - timedelta_days time"
      by simp_all
    show ?thesis
    proof (intro conjI allI impI)
      show "i \<le> b" using le by simp
      show "b - i < length (x # xs)" using le lt by simp
    next
      fix j assume j: "j < b - i"
      show "\<exists>t. fb_date ((x # xs) ! j) = Inr t \<and> \<not> t < clock (r + j) - timedelta_days time"
      proof (cases j)
        case 0
        then show ?thesis using t False by simp
      next
        case (Suc j')
        with j have "j' < b - Suc i" by simp
        with all Suc show ?thesis by simp
      qed
    qed
  qed
qed

lemma find_border_at:
  assumes "\<forall>j<length pre. \<exists>t. fb_date (pre ! j) = Inr t \<and> \<not> t < clock (r + j) - timedelta_days time"
    and "fb_date x = Inr tx" and "tx < clock (r + length pre) - timedelta_days time"
  shows "find_border clock time r i (pre @ x # post) = Inr (Some (i + length pre), Suc (r + length pre))"
  using assms
proof (induction pre arbitrary: r i)
  case Nil
  then show ?case by simp
next
  case (Cons p pre)
  from Cons.prems(1) have "\<exists>t. fb_date ((p # pre) ! 0) = Inr t \<and> \<not> t < clock (r + 0) - timedelta_days time"
    by blast
  then obtain t where t: "fb_date p = Inr t" "\<not> t < clock r - timedelta_days time"
    by auto
  have tl: "\<forall>j<length pre. \<exists>t. fb_date (pre ! j) = Inr t \<and> \<not> t < clock (Suc r + j) - timedelta_days time"
  proof (intro allI impI)
    fix j assume "j < length pre"
    then have "Suc j < length (p # pre)" by simp
    with Cons.prems(1) have "\<exists>t. fb_date ((p # pre) ! Suc j) = Inr t \<and> \<not> t < clock (r + Suc j) - timedelta_days time"
      by blast
    then show "\<exists>t. fb_date (pre ! j) = Inr t \<and> \<not> t < clock (Suc r + j) - timedelta_days time"
      by simp
  qed
  have "find_border clock time (Suc r) (Suc i) (pre @ x # post) = Inr (Some (Suc i + length pre), Suc (Suc r + length pre))"
    using Cons.IH [OF tl Cons.prems(2)] Cons.prems(3) by simp
  with t show ?case by simp
qed

subsection \<open>One pass of the loop\<close>

lemma iteration_Break_examined:
  assumes "iteration w time acc new c r = Break res" and "f \<in> set res"
  shows "f \<in> set acc \<or> (\<exists>k t. fb_date f = Inr t \<and> \<not> t < now w k - timedelta_days time)"
proof (cases "find_border (now w) time r 0 new")
  case (Inl e)
  with assms(1) show ?thesis by (simp add: iteration_def)
next
  case (Inr p)
  obtain border r' where p: "p = (border, r')" by (cases p)
  show ?thesis
  proof (cases border)
    case None
    from find_border_None [OF Inr [unfolded p None]]
    have all: "\<forall>j<length new. \<exists>t. fb_date (new ! j) = Inr t \<and> \<not> t < now w (r + j) - timedelta_days time"
      by simp
    from assms Inr p None have "f \<in> set acc \<or> f \<in> set new"
      by (auto simp: iteration_def split: sum.splits if_splits)
    then show ?thesis
    proof
      assume "f \<in> set new"
      then obtain j where "j < length new" "new ! j = f" by (auto simp: in_set_conv_nth)
      with all show ?thesis by blast
    qed simp
  next
    case (Some b)
    from find_border_Some [OF Inr [unfolded p Some]]
    have all: "\<forall>j<b. \<exists>t. fb_date (new ! j) = Inr t \<and> \<not> t < now w (r + j) - timedelta_days time"
      and b: "b < length new"
      by simp_all
    from assms Inr p Some have "f \<in> set acc \<or> f \<in> set (take b new)"
      by (auto simp: iteration_def split: if_splits)
    then show ?thesis
    proof
      assume "f \<in> set (take b new)"
      then obtain j where "j < b" "new ! j = f" using b
        by (auto simp: in_set_conv_nth)
      with all show ?thesis by blast
    qed simp
  qed
qed

lemma iteration_Continue_examined:
  assumes "iteration w time acc new c r = Continue acc' new' c' r'" and "f \<in> set acc'"
  shows "f \<in> set acc \<or> (\<exists>k t. fb_date f = Inr t \<and> \<not> t < now w k - timedelta_days time)"
proof (cases "find_border (now w) time r 0 new")
  case (Inl e)
  with assms(1) show ?thesis by (simp add: iteration_def)
next
  case (Inr p)
  obtain border r'' where p: "p = (border, r'')" by (cases p)
  from assms(1) Inr p have None: "border = None" and acc': "acc' = acc @ new"
    by (auto simp: iteration_def split: option.splits sum.splits if_splits)
  from find_border_None [OF Inr [unfolded p None]]
  have all: "\<forall>j<length new. \<exists>t. fb_date (new ! j) = Inr t \<and> \<not> t < now w (r + j) - timedelta_days time"
    by simp
  from assms(2) acc' have "f \<in> set acc \<or> f \<in> set new" by auto
  then show ?thesis
  proof
    assume "f \<in> set new"
    then obtain j where "j < length new" "new ! j = f" by (auto simp: in_set_conv_nth)
    with all show ?thesis by blast
  qed simp
qed

subsection \<open>The loop\<close>

lemma collect_loop_examined_aux:
  assumes run: "collect_loop w time acc new c r = Some y"
  shows "\<forall>res. y = Inr res \<longrightarrow> (\<forall>f\<in>set acc. examined w time f) \<longrightarrow> (\<forall>f\<in>set res. examined w time f)"
proof (rule collect_loop.raw_induct
    [where P = "\<lambda>w time acc new c r y.
       \<forall>res. y = Inr res \<longrightarrow> (\<forall>f\<in>set acc. examined w time f) \<longrightarrow> (\<forall>f\<in>set res. examined w time f)",
     OF _ run])
  fix loop w time acc new c r y
  assume IH: "\<And>w time acc new c r y. loop w time acc new c r = Some y \<Longrightarrow>
       \<forall>res. y = Inr res \<longrightarrow> (\<forall>f\<in>set acc. examined w time f) \<longrightarrow> (\<forall>f\<in>set res. examined w time f)"
    and body: "(if new = [] then Some (Inr acc)
                else case iteration w time acc new c r of
                       Raise e \<Rightarrow> Some (Inl e)
                     | Break result \<Rightarrow> Some (Inr result)
                     | Continue acc' new' c' r' \<Rightarrow> loop w time acc' new' c' r') = Some y"
  show "\<forall>res. y = Inr res \<longrightarrow> (\<forall>f\<in>set acc. examined w time f) \<longrightarrow> (\<forall>f\<in>set res. examined w time f)"
  proof (intro allI impI)
    fix res
    assume y: "y = Inr res" and inv: "\<forall>f\<in>set acc. examined w time f"
    show "\<forall>f\<in>set res. examined w time f"
    proof (cases "new = []")
      case True
      with body have "y = Inr acc" by simp
      with y inv show ?thesis by simp
    next
      case False
      with body have body': "(case iteration w time acc new c r of
                         Raise e \<Rightarrow> Some (Inl e)
                       | Break result \<Rightarrow> Some (Inr result)
                       | Continue acc' new' c' r' \<Rightarrow> loop w time acc' new' c' r') = Some y"
        by simp
      show ?thesis
      proof (cases "iteration w time acc new c r")
        case (Raise e)
        with body' y show ?thesis by simp
      next
        case (Break result)
        with body' y have "result = res" by simp
        with Break have br: "iteration w time acc new c r = Break res" by simp
        show ?thesis
        proof
          fix f assume "f \<in> set res"
          from iteration_Break_examined [OF br this] inv show "examined w time f"
            unfolding examined_def by blast
        qed
      next
        case (Continue acc' new' c' r')
        with body' have call: "loop w time acc' new' c' r' = Some y" by simp
        have "\<forall>f\<in>set acc'. examined w time f"
        proof
          fix f assume "f \<in> set acc'"
          from iteration_Continue_examined [OF Continue this] inv show "examined w time f"
            unfolding examined_def by blast
        qed
        with IH [OF call] y show ?thesis by blast
      qed
    qed
  qed
qed

lemma collect_loop_Nil: "collect_loop w time acc [] c r = Some (Inr acc)"
  by (subst collect_loop.simps) simp

lemma collect_loop_Raise:
  "new \<noteq> [] \<Longrightarrow> iteration w time acc new c r = Raise e \<Longrightarrow>
   collect_loop w time acc new c r = Some (Inl e)"
  by (subst collect_loop.simps) simp

lemma collect_loop_Break:
  "new \<noteq> [] \<Longrightarrow> iteration w time acc new c r = Break res \<Longrightarrow>
   collect_loop w time acc new c r = Some (Inr res)"
  by (subst collect_loop.simps) simp

lemma collect_loop_Continue:
  "new \<noteq> [] \<Longrightarrow> iteration w time acc new c r = Continue acc' new' c' r' \<Longrightarrow>
   collect_loop w time acc new c r = collect_loop w time acc' new' c' r'"
  by (subst collect_loop.simps) simp

lemma iteration_border:
  assumes "\<forall>j<length pre. \<exists>t. fb_date (pre ! j) = Inr t \<and> \<not> t < now w (r + j) - timedelta_days time"
    and "fb_date x = Inr tx" and "tx < now w (r + length pre) - timedelta_days time"
  shows "iteration w time acc (pre @ x # post) c r = Break (acc @ pre)"
proof -
  have "find_border (now w) time r 0 (pre @ x # post) = Inr (Some (length pre), Suc (r + length pre))"
    using find_border_at [OF assms, of 0 post] by simp
  then show ?thesis by (simp add: iteration_def)
qed

lemma collect_loop_border:
  assumes "\<forall>j<length pre. \<exists>t. fb_date (pre ! j) = Inr t \<and> \<not> t < now w (r + j) - timedelta_days time"
    and "fb_date x = Inr tx" and "tx < now w (r + length pre) - timedelta_days time"
  shows "collect_loop w time acc (pre @ x # post) c r = Some (Inr (acc @ pre))"
  using iteration_border [OF assms] by (simp add: collect_loop_Break)

lemma iteration_ContinueD:
  assumes "iteration w time acc new c r = Continue acc' new' c' r'"
  shows "acc' = acc @ new \<and> c' = Suc c \<and>
         find_border (now w) time r 0 new = Inr (None, r') \<and>
         (\<exists>found. click w c (last new) = Inr found \<and> new' = drop (length (acc @ new)) found)"
  using assms
  by (auto simp: iteration_def split: sum.splits option.splits if_splits prod.splits)

lemma iteration_progress:
  assumes "new \<noteq> []" and "iteration w time acc new c r = Continue acc' new' c' r'"
  shows "length acc < length acc'"
  using iteration_ContinueD [OF assms(2)] assms(1) by simp

lemma clock_mono:
  assumes "\<forall>k. (clock :: nat \<Rightarrow> int) k \<le> clock (Suc k)"
  shows "clock 0 \<le> clock k"
proof (induction k)
  case 0
  show ?case by simp
next
  case (Suc k)
  with assms show ?case using order_trans by blast
qed

lemma collect_loop_click_raises:
  assumes "\<forall>e. \<exists>x. click w (c + K) e = Inl x"
  shows "\<exists>res. collect_loop w time acc new c r = Some res"
  using assms
proof (induction K arbitrary: acc new c r)
  case 0
  show ?case
  proof (cases "new = []")
    case True
    then show ?thesis by (simp add: collect_loop_Nil)
  next
    case False
    show ?thesis
    proof (cases "iteration w time acc new c r")
      case (Raise e)
      with False show ?thesis by (simp add: collect_loop_Raise)
    next
      case (Break res)
      with False show ?thesis by (simp add: collect_loop_Break)
    next
      case (Continue acc' new' c' r')
      from iteration_ContinueD [OF this] obtain found where "click w c (last new) = Inr found"
        by blast
      moreover from "0.prems" obtain x where "click w c (last new) = Inl x" by auto
      ultimately show ?thesis by simp
    qed
  qed
next
  case (Suc K)
  show ?case
  proof (cases "new = []")
    case True
    then show ?thesis by (simp add: collect_loop_Nil)
  next
    case False
    show ?thesis
    proof (cases "iteration w time acc new c r")
      case (Raise e)
      with False show ?thesis by (simp add: collect_loop_Raise)
    next
      case (Break res)
      with False show ?thesis by (simp add: collect_loop_Break)
    next
      case (Continue acc' new' c' r')
      from iteration_ContinueD [OF this] have c': "c' = Suc c" by blast
      from Suc.prems have "\<forall>e. \<exists>x. click w (Suc c + K) e = Inl x" by simp
      from Suc.IH [OF this] have "\<exists>res. collect_loop w time acc' new' (Suc c) r' = Some res" .
      with False Continue c' show ?thesis by (simp add: collect_loop_Continue)
    qed
  qed
qed

lemma iteration_head_too_old:
  assumes "new = x # post" and "fb_date x = Inr tx" and "tx < now w r - timedelta_days time"
  shows "iteration w time acc new c r = Break acc"
  using iteration_border [of "[]" w r time x tx acc post c] assms by simp

lemma collect_loop_aged_out:
  assumes docs: "\<forall>k e found i. click w k e = Inr found \<longrightarrow> i < length found \<longrightarrow> N \<le> i \<longrightarrow>
            (\<exists>t. fb_date (found ! i) = Inr t \<and> (\<forall>k. t < now w k - timedelta_days time))"
    and batch: "\<forall>j<length new. N \<le> length acc + j \<longrightarrow>
            (\<exists>t. fb_date (new ! j) = Inr t \<and> (\<forall>k. t < now w k - timedelta_days time))"
  shows "\<exists>res. collect_loop w time acc new c r = Some res"
  using batch
proof (induction "N - length acc" arbitrary: acc new c r rule: less_induct)
  case less
  show ?case
  proof (cases "new = []")
    case True
    then show ?thesis by (simp add: collect_loop_Nil)
  next
    case False
    show ?thesis
    proof (cases "iteration w time acc new c r")
      case (Raise e)
      with False show ?thesis by (simp add: collect_loop_Raise)
    next
      case (Break res)
      with False show ?thesis by (simp add: collect_loop_Break)
    next
      case (Continue acc' new' c' r')
      from iteration_ContinueD [OF this] obtain found where acc': "acc' = acc @ new"
        and found: "click w c (last new) = Inr found"
        and new': "new' = drop (length (acc @ new)) found"
        by blast
      have short: "length acc < N"
      proof (rule ccontr)
        assume "\<not> length acc < N"
        then have "N \<le> length acc + 0" by simp
        moreover from False have "0 < length new" by simp
        ultimately obtain t where "fb_date (new ! 0) = Inr t" "\<forall>k. t < now w k - timedelta_days time"
          using less.prems by blast
        moreover from False obtain x post where "new = x # post" by (cases new) auto
        ultimately have "iteration w time acc new c r = Break acc"
          using iteration_head_too_old [of new x post t w r time acc c] by simp
        with Continue show False by simp
      qed
      from False acc' have longer: "length acc < length acc'" by simp
      with short have dec: "N - length acc' < N - length acc" by simp
      have "\<forall>j<length new'. N \<le> length acc' + j \<longrightarrow>
              (\<exists>t. fb_date (new' ! j) = Inr t \<and> (\<forall>k. t < now w k - timedelta_days time))"
      proof (intro allI impI)
        fix j assume j: "j < length new'" and N: "N \<le> length acc' + j"
        from j new' acc' have in_range: "length acc' + j < length found" by simp
        from j new' acc' have "new' ! j = found ! (length acc' + j)" by simp
        with docs found in_range N
        show "\<exists>t. fb_date (new' ! j) = Inr t \<and> (\<forall>k. t < now w k - timedelta_days time)"
          by metis
      qed
      from less.hyps [OF dec this] have "\<exists>res. collect_loop w time acc' new' c' r' = Some res" .
      with False Continue show ?thesis by (simp add: collect_loop_Continue)
    qed
  qed
qed

lemma collect_loop_bounded_listing:
  assumes docs: "\<forall>k e found. click w k e = Inr found \<longrightarrow> length found \<le> N"
  shows "\<exists>res. collect_loop w time [] new 0 0 = Some res"
proof -
  let ?M = "max N (length new)"
  have "\<forall>k e found i. click w k e = Inr found \<longrightarrow> i < length found \<longrightarrow> ?M \<le> i \<longrightarrow>
            (\<exists>t. fb_date (found ! i) = Inr t \<and> (\<forall>k. t < now w k - timedelta_days time))"
    using docs by (meson le_trans max.cobounded1 not_less)
  moreover have "\<forall>j<length new. ?M \<le> length ([] :: feedback list) + j \<longrightarrow>
            (\<exists>t. fb_date (new ! j) = Inr t \<and> (\<forall>k. t < now w k - timedelta_days time))"
    by simp
  ultimately show ?thesis by (rule collect_loop_aged_out)
qed

subsection \<open>The harvest of one page\<close>

lemma harvest_stars:
  "item \<in> set (fst (harvest pname s r fs)) \<Longrightarrow>
   \<exists>f\<in>set fs. fb_rating_class f \<noteq> Some [] \<and>
     feedback_stars item = map_option last (fb_rating_class f) \<and>
     feedback_stars item \<noteq> Some CHR ''5''"
proof (induction fs)
  case Nil
  then show ?case by simp
next
  case (Cons f fs)
  show ?case
  proof (cases "read_stars f")
    case (Inl e)
    with Cons.prems show ?thesis by simp
  next
    case (Inr stars)
    then have cls: "fb_rating_class f \<noteq> Some []" and stars: "stars = map_option last (fb_rating_class f)"
      by (auto simp: read_stars_def split: option.splits if_splits)
    show ?thesis
    proof (cases "stars = Some CHR ''5''")
      case True
      with Inr Cons.prems have "item \<in> set (fst (harvest pname s r fs))" by simp
      from Cons.IH [OF this] show ?thesis by auto
    next
      case False
      with Inr Cons.prems have
        "item = \<lparr>feedback_name = fb_header f, product_name = pname, sku = s,
                 feedback_stars = stars, feedback_text = fb_text f, rating = r\<rparr>
         \<or> item \<in> set (fst (harvest pname s r fs))"
        by (auto split: prod.splits)
      then show ?thesis
      proof
        assume "item = \<lparr>feedback_name = fb_header f, product_name = pname, sku = s,
                 feedback_stars = stars, feedback_text = fb_text f, rating = r\<rparr>"
        with cls stars False show ?thesis by simp
      next
        assume "item \<in> set (fst (harvest pname s r fs))"
        from Cons.IH [OF this] show ?thesis by auto
      qed
    qed
  qed
qed

lemma harvest_all:
  assumes "\<forall>f\<in>set fs. fb_rating_class f \<noteq> Some []"
  shows "harvest pname s r fs =
     (map (\<lambda>f. \<lparr>feedback_name = fb_header f, product_name = pname, sku = s,
                 feedback_stars = map_option last (fb_rating_class f),
                 feedback_text = fb_text f, rating = r\<rparr>)
        (filter (\<lambda>f. map_option last (fb_rating_class f) \<noteq> Some CHR ''5'') fs), None)"
  using assms
proof (induction fs)
  case Nil
  show ?case by simp
next
  case (Cons f fs)
  from Cons.prems have "read_stars f = Inr (map_option last (fb_rating_class f))"
    by (auto simp: read_stars_def split: option.splits)
  moreover from Cons have "harvest pname s r fs =
     (map (\<lambda>f. \<lparr>feedback_name = fb_header f, product_name = pname, sku = s,
                 feedback_stars = map_option last (fb_rating_class f),
                 feedback_text = fb_text f, rating = r\<rparr>)
        (filter (\<lambda>f. map_option last (fb_rating_class f) \<noteq> Some CHR ''5'') fs), None)"
    by simp
  ultimately show ?case by simp
qed

lemma handle_page_appended:
  assumes "handle_page w s = Some (appended, raised)"
  shows "appended = [] \<or>
     (\<exists>pname r fs. page_rating w = Inr r \<and> r < 5 \<and> page_product_name w = Inr pname \<and>
        collect_all_feedbacks w TIME_DELTA = Some (Inr fs) \<and>
        appended = fst (harvest pname s r fs))"
  using assms
  by (auto simp: handle_page_def handle_page_body_def
      split: sum.splits option.splits if_splits prod.splits)

section \<open>The claims\<close>

subsection \<open>The paginator\<close>

text \<open>
  Claim C1. Whatever the age cutoff \<open>time\<close>, every review element that
  \<open>collect_all_feedbacks\<close> returns has a date that can be read and that was not older than
  \<^verbatim>\<open>now - time\<close> days when the loop compared it with the clock; when the clock never runs
  backwards, the date is not older than the first clock read of the run minus \<open>time\<close> days.
  In a batch \<open>pre @ x # post\<close> whose first too old element is \<open>x\<close>, the elements
  \<open>pre\<close> before it are retained and \<open>x\<close> and \<open>post\<close> are discarded: the loop returns
  what it had retained, followed by \<open>pre\<close>.
\<close>

theorem collect_all_feedbacks_not_older:
  "(\<forall>res. collect_all_feedbacks w time = Some (Inr res) \<longrightarrow>
      (\<forall>f\<in>set res. \<exists>t. fb_date f = Inr t \<and>
          (\<exists>k. \<not> t < now w k - timedelta_days time) \<and>
          ((\<forall>k. now w k \<le> now w (Suc k)) \<longrightarrow> now w 0 - timedelta_days time \<le> t)))
   \<and> (\<forall>acc pre x post c r tx.
        (\<forall>j<length pre. \<exists>t. fb_date (pre ! j) = Inr t \<and>
            \<not> t < now w (r + j) - timedelta_days time) \<longrightarrow>
        fb_date x = Inr tx \<longrightarrow> tx < now w (r + length pre) - timedelta_days time \<longrightarrow>
        collect_loop w time acc (pre @ x # post) c r = Some (Inr (acc @ pre)))"
proof (intro conjI allI impI ballI)
  fix res f
  assume run: "collect_all_feedbacks w time = Some (Inr res)" and f: "f \<in> set res"
  from run have "collect_loop w time [] (comments w) 0 0 = Some (Inr res)"
    by (simp add: collect_all_feedbacks_def)
  from collect_loop_examined_aux [OF this] f have "examined w time f" by simp
  then obtain k t where t: "fb_date f = Inr t" and k: "\<not> t < now w k - timedelta_days time"
    by (auto simp: examined_def)
  have "now w 0 - timedelta_days time \<le> t" if "\<forall>k. now w k \<le> now w (Suc k)"
  proof -
    from clock_mono [OF that] have "now w 0 \<le> now w k" .
    with k show ?thesis by simp
  qed
  with t k show "\<exists>t. fb_date f = Inr t \<and>
          (\<exists>k. \<not> t < now w k - timedelta_days time) \<and>
          ((\<forall>k. now w k \<le> now w (Suc k)) \<longrightarrow> now w 0 - timedelta_days time \<le> t)"
    by blast
next
  fix acc pre post :: "feedback list" and x :: feedback and c r :: nat and tx :: int
  assume "\<forall>j<length pre. \<exists>t. fb_date (pre ! j) = Inr t \<and>
            \<not> t < now w (r + j) - timedelta_days time"
    and "fb_date x = Inr tx" and "tx < now w (r + length pre) - timedelta_days time"
  then show "collect_loop w time acc (pre @ x # post) c r = Some (Inr (acc @ pre))"
    by (rule collect_loop_border)
qed

theorem collect_all_feedbacks_not_older_witness:
  "collect_all_feedbacks shop_page 10 = Some (Inr [fb_new, fb_five])
   \<and> fb_date fb_new = Inr 1699913600000000
   \<and> now shop_page 0 - timedelta_days 10 \<le> 1699913600000000
   \<and> fb_date fb_five = Inr 1699827200000000
   \<and> now shop_page 0 - timedelta_days 10 \<le> 1699827200000000
   \<and> fb_date fb_old = Inr 1699049600000000
   \<and> 1699049600000000 < now shop_page (0 + length [fb_new, fb_five]) - timedelta_days 10
   \<and> collect_loop shop_page 10 [] ([fb_new, fb_five] @ fb_old # []) 0 0 = Some (Inr ([] @ [fb_new, fb_five]))"
proof -
  have run: "collect_all_feedbacks shop_page 10 = Some (Inr [fb_new, fb_five])"
    by (simp add: run_defs examples)
  have mono: "\<forall>k. now shop_page k \<le> now shop_page (Suc k)"
    by (simp add: shop_page_def)
  have pre: "\<forall>j<length [fb_new, fb_five]. \<exists>t. fb_date ([fb_new, fb_five] ! j) = Inr t \<and>
            \<not> t < now shop_page (0 + j) - timedelta_days 10"
    by (simp add: less_Suc_eq examples timedelta_days_def)
  have old: "fb_date fb_old = Inr 1699049600000000"
    "1699049600000000 < now shop_page (0 + length [fb_new, fb_five]) - timedelta_days 10"
    by (simp_all add: examples timedelta_days_def)
  note inst = collect_all_feedbacks_not_older [of shop_page 10]
  from inst run mono have
    "\<forall>f\<in>set [fb_new, fb_five]. \<exists>t. fb_date f = Inr t \<and> now shop_page 0 - timedelta_days 10 \<le> t"
    by blast
  moreover from inst pre old have
    "collect_loop shop_page 10 [] ([fb_new, fb_five] @ fb_old # []) 0 0 = Some (Inr ([] @ [fb_new, fb_five]))"
    by blast
  ultimately show ?thesis using run old by (simp add: fb_new_def fb_five_def)
qed

text \<open>
  Claim C4. When the first element of a batch is already older than the cutoff
  (the border is at position 0), the loop returns at once exactly the list it had
  retained before that batch, whatever follows in the batch and whatever a click would do.
\<close>

theorem boundary_at_zero:
  assumes "fb_date x = Inr tx" and "tx < now w r - timedelta_days time"
  shows "collect_loop w time acc (x # post) c r = Some (Inr acc)"
  using collect_loop_border [of "[]" w r time x tx acc post c] assms by simp

theorem boundary_at_zero_witness:
  "fb_date fb_old = Inr 1699049600000000
   \<and> 1699049600000000 < now shop_page 1 - timedelta_days 10
   \<and> collect_loop shop_page 10 [fb_new] (fb_old # [fb_five]) 1 1 = Some (Inr [fb_new])"
proof -
  have a: "fb_date fb_old = Inr 1699049600000000" by (simp add: fb_old_def)
  have b: "1699049600000000 < now shop_page 1 - timedelta_days 10"
    by (simp add: shop_page_def timedelta_days_def)
  from boundary_at_zero [OF a b] a b show ?thesis by simp
qed

text \<open>
  Claim C5. Forward progress: a pass through the loop body that does not leave the loop
  makes \<^verbatim>\<open>feedbacks_list\<close> strictly longer. Termination: the run returns (a list or an
  exception) when the expansion control is exhausted at some point, that is when some
  click of the run raises whatever element it is made on, or when the page never holds
  more than \<open>N\<close> reviews; and it returns when the age cutoff bounds the listing, that is
  when every review at position \<open>N\<close> or later in any document of the page is older than
  the cutoff at every clock read.
\<close>

theorem pagination_progress_and_termination:
  "(\<forall>acc new c r acc' new' c' r'.
      new \<noteq> [] \<longrightarrow> iteration w time acc new c r = Continue acc' new' c' r' \<longrightarrow>
      length acc < length acc')
   \<and> ((\<exists>K. \<forall>e. \<exists>x. click w K e = Inl x)
        \<or> (\<exists>N. \<forall>k e found. click w k e = Inr found \<longrightarrow> length found \<le> N)
        \<or> (\<exists>N. (\<forall>i<length (comments w). N \<le> i \<longrightarrow>
                    (\<exists>t. fb_date (comments w ! i) = Inr t \<and> (\<forall>k. t < now w k - timedelta_days time)))
               \<and> (\<forall>k e found i. click w k e = Inr found \<longrightarrow> i < length found \<longrightarrow> N \<le> i \<longrightarrow>
                    (\<exists>t. fb_date (found ! i) = Inr t \<and> (\<forall>k. t < now w k - timedelta_days time))))
        \<longrightarrow> (\<exists>res. collect_all_feedbacks w time = Some res))"
proof (intro conjI allI impI)
  fix acc new acc' new' :: "feedback list" and c r c' r' :: nat
  assume "new \<noteq> []" and "iteration w time acc new c r = Continue acc' new' c' r'"
  then show "length acc < length acc'" by (rule iteration_progress)
next
  assume "(\<exists>K. \<forall>e. \<exists>x. click w K e = Inl x)
        \<or> (\<exists>N. \<forall>k e found. click w k e = Inr found \<longrightarrow> length found \<le> N)
        \<or> (\<exists>N. (\<forall>i<length (comments w). N \<le> i \<longrightarrow>
                    (\<exists>t. fb_date (comments w ! i) = Inr t \<and> (\<forall>k. t < now w k - timedelta_days time)))
               \<and> (\<forall>k e found i. click w k e = Inr found \<longrightarrow> i < length found \<longrightarrow> N \<le> i \<longrightarrow>
                    (\<exists>t. fb_date (found ! i) = Inr t \<and> (\<forall>k. t < now w k - timedelta_days time))))"
  then consider
      (raises) K where "\<forall>e. \<exists>x. click w K e = Inl x"
    | (bounded) N where "\<forall>k e found. click w k e = Inr found \<longrightarrow> length found \<le> N"
    | (aged) N where "\<forall>i<length (comments w). N \<le> i \<longrightarrow>
                    (\<exists>t. fb_date (comments w ! i) = Inr t \<and> (\<forall>k. t < now w k - timedelta_days time))"
        and "\<forall>k e found i. click w k e = Inr found \<longrightarrow> i < length found \<longrightarrow> N \<le> i \<longrightarrow>
                    (\<exists>t. fb_date (found ! i) = Inr t \<and> (\<forall>k. t < now w k - timedelta_days time))"
    by blast
  then have "\<exists>res. collect_loop w time [] (comments w) 0 0 = Some res"
  proof cases
    case raises
    then have "\<forall>e. \<exists>x. click w (0 + K) e = Inl x" by simp
    then show ?thesis by (rule collect_loop_click_raises)
  next
    case bounded
    then show ?thesis by (rule collect_loop_bounded_listing)
  next
    case aged
    from aged(1) have "\<forall>j<length (comments w). N \<le> length ([] :: feedback list) + j \<longrightarrow>
        (\<exists>t. fb_date (comments w ! j) = Inr t \<and> (\<forall>k. t < now w k - timedelta_days time))"
      by simp
    with aged(2) show ?thesis by (rule collect_loop_aged_out)
  qed
  then show "\<exists>res. collect_all_feedbacks w time = Some res"
    by (simp add: collect_all_feedbacks_def)
qed

theorem pagination_progress_and_termination_witness:
  "[fb_new] \<noteq> []
   \<and> iteration growing_page 10 [] [fb_new] 0 0 = Continue [fb_new] [fb_bare] 1 1
   \<and> length ([] :: feedback list) < length [fb_new]
   \<and> (\<forall>e. \<exists>x. click growing_page 1 e = Inl x)
   \<and> (\<exists>res. collect_all_feedbacks growing_page 10 = Some res)"
proof -
  have ne: "[fb_new] \<noteq> []" by simp
  have it: "iteration growing_page 10 [] [fb_new] 0 0 = Continue [fb_new] [fb_bare] 1 1"
    by (simp add: run_defs examples)
  have ex: "\<forall>e. \<exists>x. click growing_page 1 e = Inl x"
    by (simp add: growing_page_def)
  note inst = pagination_progress_and_termination [of growing_page 10]
  from inst ne it have "length ([] :: feedback list) < length [fb_new]" by blast
  moreover from inst ex have "\<exists>res. collect_all_feedbacks growing_page 10 = Some res" by blast
  ultimately show ?thesis using ne it ex by blast
qed

subsection \<open>The harvester\<close>

text \<open>
  Claim C6. When the aggregate rating of the product is 5, the maximum, \<open>handle_page\<close>
  appends nothing to \<^verbatim>\<open>DATA\<close> and raises nothing, whatever the reviews of the page, its
  clicks and its clock are: the paginator is not run.
\<close>

theorem handle_page_perfect_score:
  "handle_page (w\<lparr>page_rating := Inr 5\<rparr>) s = Some ([], None)"
  by (simp add: handle_page_def handle_page_body_def)

theorem handle_page_perfect_score_witness:
  "handle_page (shop_page\<lparr>page_rating := Inr 5\<rparr>) ''A2'' = Some ([], None)"
  using handle_page_perfect_score [of shop_page "''A2''"] by simp




text \<open>
  Claim C8. The three children of a review are read independently. Over any list of
  collected reviews whose rating class, where present, is not the empty string, the loop of
  lines 115 to 136 raises nothing and appends one record for each review whose star
  character is not \<^verbatim>\<open>5\<close>; each of the fields \<open>feedback_name\<close>, \<open>feedback_stars\<close> and
  \<open>feedback_text\<close> of the record comes from its own child alone and is \<open>None\<close> exactly
  when that child is missing.
\<close>

theorem harvest_fields_independent:
  assumes "\<forall>f\<in>set fs. fb_rating_class f \<noteq> Some []"
  shows "harvest pname s r fs =
     (map (\<lambda>f. \<lparr>feedback_name = fb_header f, product_name = pname, sku = s,
                 feedback_stars = map_option last (fb_rating_class f),
                 feedback_text = fb_text f, rating = r\<rparr>)
        (filter (\<lambda>f. map_option last (fb_rating_class f) \<noteq> Some CHR ''5'') fs), None)"
  using assms by (rule harvest_all)

theorem harvest_fields_independent_witness:
  "fb_rating_class fb_bare \<noteq> Some [] \<and> fb_rating_class fb_plain \<noteq> Some []
   \<and> fb_rating_class fb_five \<noteq> Some []
   \<and> harvest ''Kettle'' ''A1'' 4.8 [fb_bare, fb_plain, fb_five] =
       ([\<lparr>feedback_name = None, product_name = ''Kettle'', sku = ''A1'',
          feedback_stars = None, feedback_text = None, rating = 4.8\<rparr>,
         \<lparr>feedback_name = None, product_name = ''Kettle'', sku = ''A1'',
          feedback_stars = Some CHR ''g'', feedback_text = Some ''no stars shown'',
          rating = 4.8\<rparr>], None)"
proof -
  have cls: "\<forall>f\<in>set [fb_bare, fb_plain, fb_five]. fb_rating_class f \<noteq> Some []"
    by (simp add: examples)
  from harvest_fields_independent [OF cls, of "''Kettle''" "''A1''" "4.8"]
  show ?thesis by (simp add: examples)
qed

text \<open>
  Claim C9, as stated: in every record the star field is absent or an integer between 1
  and 5. It fails: a review whose rating element has the bare class attribute
  \<^verbatim>\<open>feedback__rating\<close> gives a record whose star field is the letter \<^verbatim>\<open>g\<close>.
\<close>

theorem stars_not_a_digit_counterexample:
  "handle_page plain_page ''A1'' =
     Some ([\<lparr>feedback_name = None, product_name = ''Kettle'', sku = ''A1'',
             feedback_stars = Some CHR ''g'', feedback_text = Some ''no stars shown'',
             rating = 4.8\<rparr>], None)
   \<and> CHR ''g'' \<notin> set ''12345''"
  by (simp add: run_defs examples)

text \<open>
  Claim C9, amended. In every record that \<open>handle_page\<close> appends, the star field is absent
  or is the last character of the class attribute of the rating element of one of the
  collected reviews; that character is never \<^verbatim>\<open>5\<close>, and nothing makes it a digit.
\<close>

theorem stars_last_character_of_class:
  assumes "handle_page w s = Some (appended, raised)" and "item \<in> set appended"
  shows "feedback_stars item = None \<or>
     (\<exists>fs f cls. collect_all_feedbacks w TIME_DELTA = Some (Inr fs) \<and> f \<in> set fs \<and>
        fb_rating_class f = Some cls \<and> cls \<noteq> [] \<and>
        feedback_stars item = Some (last cls) \<and> last cls \<noteq> CHR ''5'')"
proof -
  from handle_page_appended [OF assms(1)] assms(2) obtain pname r fs
    where fs: "collect_all_feedbacks w TIME_DELTA = Some (Inr fs)"
      and item: "item \<in> set (fst (harvest pname s r fs))" by auto
  from harvest_stars [OF item] obtain f where f: "f \<in> set fs"
    and cls: "fb_rating_class f \<noteq> Some []"
    and stars: "feedback_stars item = map_option last (fb_rating_class f)"
    and ne: "feedback_stars item \<noteq> Some CHR ''5''" by blast
  show ?thesis
  proof (cases "fb_rating_class f")
    case None
    with stars show ?thesis by simp
  next
    case (Some c)
    with cls stars ne have "c \<noteq> []" "feedback_stars item = Some (last c)" "last c \<noteq> CHR ''5''"
      by simp_all
    with fs f Some show ?thesis by blast
  qed
qed

theorem stars_last_character_of_class_witness:
  "handle_page plain_page ''A1'' =
     Some ([\<lparr>feedback_name = None, product_name = ''Kettle'', sku = ''A1'',
             feedback_stars = Some CHR ''g'', feedback_text = Some ''no stars shown'',
             rating = 4.8\<rparr>], None)
   \<and> (\<exists>fs f cls. collect_all_feedbacks plain_page TIME_DELTA = Some (Inr fs) \<and> f \<in> set fs \<and>
        fb_rating_class f = Some cls \<and> cls \<noteq> [] \<and>
        Some CHR ''g'' = Some (last cls) \<and> last cls \<noteq> CHR ''5'')"
proof -
  let ?item = "\<lparr>feedback_name = None, product_name = ''Kettle'', sku = ''A1'',
             feedback_stars = Some CHR ''g'', feedback_text = Some ''no stars shown'',
             rating = 4.8\<rparr>"
  have run: "handle_page plain_page ''A1'' = Some ([?item], None)"
    by (simp add: run_defs examples)
  have mem: "?item \<in> set [?item]" by simp
  from stars_last_character_of_class [OF run mem] run show ?thesis by simp
qed

subsection \<open>Where the code departs from its description\<close>

text \<open>
  Claim C2 says that when the expansion control cannot be clicked the paginator returns
  every revealed review at most once. The code appends the batch at line 74 and appends
  it again at line 80 in the handler of \<^verbatim>\<open>ElementNotInteractableException\<close>: on a page
  with one recent review and a control that cannot be clicked, the review is returned
  twice.
\<close>

theorem collect_all_feedbacks_emits_twice:
  "collect_all_feedbacks last_page 10 = Some (Inr [fb_new, fb_new])"
  by (simp add: run_defs examples)

text \<open>
  Claim C3 says that on a rate limit signal (error code 429) the delivery loop waits and
  then sends the same message again. The code prints that it will retry, with the error
  code in the place of the delay, and goes on to the next message: the first message is
  sent once and never again.
\<close>

theorem sent_data_rate_limit_moves_on:
  "sent_data (\<lambda>k m. if k = 0 then ApiTelegramException 429 else Delivered) [''first'', ''second'']
   = [SendMessage ''first'', PrintRetryAfter 429, SendMessage ''second'', StopBot]"
  by (simp add: sent_data_def)

end
